theory Spec2Isabelle
  imports Main "HOL-Library.Sublist"
begin

section \<open>Values of the navigation file\<close>

text \<open>
  The resolver of \<^verbatim>\<open>next_page_resolver.js\<close> inspects the parsed navigation file with
  dynamic checks only: truthiness (\<^verbatim>\<open>!xs\<close>), \<^verbatim>\<open>Array.isArray\<close>, \<^verbatim>\<open>typeof xs === 'string'\<close>
  and \<^verbatim>\<open>typeof xs === 'object' && xs !== null\<close>. The values are modelled by what these
  checks can tell apart.
  \<^item> \<open>JNull\<close>: \<^verbatim>\<open>null\<close> or \<^verbatim>\<open>undefined\<close> (both falsy, neither a string, an array nor a
    non-null object).
  \<^item> \<open>JOther t\<close>: any other value that is not a string, an array or an object (a number,
    a boolean, a function); \<open>t\<close> is its truthiness, the only thing the code reads of it.
  \<^item> \<open>JStr s\<close>: a string, a page name.
  \<^item> \<open>JArr xs\<close>: an array, a sequence of entries.
  \<^item> \<open>JObj kvs\<close>: a plain object, given by its own enumerable properties in the order in
    which \<^verbatim>\<open>Object.entries\<close> lists them.
  \<^item> \<open>JProto\<close>: the object \<^verbatim>\<open>Object.prototype\<close>, which a plain object inherits from. It
    has no enumerable property of its own.
\<close>

datatype jsval =
    JNull
  | JOther bool
  | JStr string
  | JArr "jsval list"
  | JObj "(string \<times> jsval) list"
  | JProto

text \<open>
  The results that \<^verbatim>\<open>findNextsHelper\<close> and \<^verbatim>\<open>getNexts\<close> pass around are \<^verbatim>\<open>false\<close>
  (not found), \<^verbatim>\<open>true\<close> (found with nothing after it yet, or a dead end) and an array of
  paths.
\<close>

datatype found = RFalse | RTrue | RPaths "string list list"

text \<open>The two \<^verbatim>\<open>throw new Error(...)\<close> statements that can be reached.\<close>

datatype error = FindNextsUnhandled | GetNextsUnhandled

subsection \<open>Reading a property\<close>

text \<open>
  \<^verbatim>\<open>xs[path[0]]\<close> is a JavaScript property read: the object's own property if it has one
  of that name, otherwise the property of that name along the prototype chain, otherwise
  \<^verbatim>\<open>undefined\<close>. The objects of a navigation tree are plain objects (object literals in
  the unit tests, mappings built by the YAML loader), so their prototype is
  \<^verbatim>\<open>Object.prototype\<close>. Its properties are the functions listed below and the accessor
  \<^verbatim>\<open>__proto__\<close>, which yields the prototype of the object it is read from.
\<close>

definition object_prototype_functions :: "string list" where
  "object_prototype_functions =
     [''constructor'', ''hasOwnProperty'', ''isPrototypeOf'', ''propertyIsEnumerable'',
      ''toLocaleString'', ''toString'', ''valueOf'', ''__defineGetter__'',
      ''__defineSetter__'', ''__lookupGetter__'', ''__lookupSetter__'']"

definition inherited :: "string \<Rightarrow> bool" where
  "inherited k \<longleftrightarrow> k \<in> set object_prototype_functions"

fun getProp :: "jsval \<Rightarrow> string \<Rightarrow> jsval" where
  "getProp (JObj kvs) k =
     (case map_of kvs k of
        Some v \<Rightarrow> v
      | None \<Rightarrow>
          if k \<in> set object_prototype_functions then JOther True
          else if k = ''__proto__'' then JProto
          else JNull)"
| "getProp JProto k =
     (if k \<in> set object_prototype_functions then JOther True else JNull)"
| "getProp _ k = JNull"

section \<open>The resolver\<close>

subsection \<open>getNexts\<close>

text \<open>
  \<^verbatim>\<open>Object.entries(xs).flatMap(f)\<close> appends what \<open>f\<close> returns for each entry when that is
  an array, and appends the value itself (here \<^verbatim>\<open>true\<close>) otherwise; an exception in \<open>f\<close>
  ends it. An item of the flattened array is \<open>Some p\<close> for a path and \<open>None\<close> for
  \<^verbatim>\<open>true\<close>. \<^verbatim>\<open>.filter(Array.isArray)\<close> keeps the paths.
\<close>

fun flatItems :: "found \<Rightarrow> string list option list" where
  "flatItems (RPaths ps) = map Some ps"
| "flatItems RTrue = [None]"
| "flatItems RFalse = [None]"

fun flatMapJS :: "(error + found) list \<Rightarrow> error + string list option list" where
  "flatMapJS [] = Inr []"
| "flatMapJS (r # rs) =
     (case r of
        Inl e \<Rightarrow> Inl e
      | Inr f \<Rightarrow> (case flatMapJS rs of Inl e \<Rightarrow> Inl e | Inr items \<Rightarrow> Inr (flatItems f @ items)))"

definition filterIsArray :: "string list option list \<Rightarrow> string list list" where
  "filterIsArray items = List.map_filter (\<lambda>i. i) items"

fun getNexts :: "jsval \<Rightarrow> string list \<Rightarrow> error + found" where
  "getNexts (JStr s) directions = Inr (RPaths [directions @ [s]])"
| "getNexts (JArr xs) directions =
     (case xs of [] \<Rightarrow> Inr RTrue | x # _ \<Rightarrow> getNexts x directions)"
| "getNexts (JObj kvs) directions =
     (case flatMapJS (map (\<lambda>(k, v). getNexts v (directions @ [k])) kvs) of
        Inl e \<Rightarrow> Inl e
      | Inr items \<Rightarrow>
          (let nexts = filterIsArray items
           in if length nexts > 0 then Inr (RPaths nexts) else Inr RTrue))"
| "getNexts JProto directions = Inr RTrue"
| "getNexts JNull directions = Inl GetNextsUnhandled"
| "getNexts (JOther t) directions = Inl GetNextsUnhandled"

subsection \<open>findNextsHelper\<close>

text \<open>
  \<open>findLoop found xs path directions\<close> is the \<^verbatim>\<open>for (const x of xs)\<close> loop of
  \<^verbatim>\<open>findNextsHelper\<close>, entered with the current value of the variable \<^verbatim>\<open>found\<close> and the
  elements still to visit.
\<close>

function findNextsHelper :: "jsval \<Rightarrow> string list \<Rightarrow> string list \<Rightarrow> error + found"
  and findLoop :: "found \<Rightarrow> jsval list \<Rightarrow> string list \<Rightarrow> string list \<Rightarrow> error + found"
where
  "findNextsHelper JNull path directions = Inr RFalse"
| "findNextsHelper (JOther t) path directions =
     (if \<not> t then Inr RFalse
      else if length path = 0 then Inr RFalse
      else Inl FindNextsUnhandled)"
| "findNextsHelper (JStr s) path directions =
     (if s = [] then Inr RFalse
      else if length path = 0 then Inr RFalse
      else if length path = 1 then Inr (if s = hd path then RTrue else RFalse)
      else Inr RFalse)"
| "findNextsHelper (JArr xs) path directions =
     (if length path = 0 then Inr RFalse
      else findLoop RFalse xs path directions)"
| "findNextsHelper (JObj kvs) path directions =
     (if length path = 0 then Inr RFalse
      else if length path = 1 then Inr RFalse
      else findNextsHelper (getProp (JObj kvs) (hd path)) (tl path) (directions @ [hd path]))"
| "findNextsHelper JProto path directions =
     (if length path = 0 then Inr RFalse
      else if length path = 1 then Inr RFalse
      else findNextsHelper (getProp JProto (hd path)) (tl path) (directions @ [hd path]))"
| "findLoop found [] path directions = Inr found"
| "findLoop found (x # xs) path directions =
     (case found of
        RFalse \<Rightarrow>
          (case findNextsHelper x path directions of
             Inl e \<Rightarrow> Inl e
           | Inr found' \<Rightarrow> findLoop found' xs path directions)
      | RPaths ps \<Rightarrow> Inr (RPaths ps)
      | RTrue \<Rightarrow>
          (case getNexts x directions of
             Inl e \<Rightarrow> Inl e
           | Inr found' \<Rightarrow> findLoop found' xs path directions))"
  by pat_completeness auto
termination
  by (relation "measures
        [\<lambda>c. case c of Inl (v, p, d) \<Rightarrow> length p | Inr (f, xs, p, d) \<Rightarrow> length p,
         \<lambda>c. case c of Inl (v, p, d) \<Rightarrow> size v | Inr (f, xs, p, d) \<Rightarrow> size_list size xs]")
     auto

subsection \<open>findNexts\<close>

definition findNexts :: "jsval \<Rightarrow> string list \<Rightarrow> error + string list list" where
  "findNexts xs path =
     (case (if length path = 0 then getNexts xs [] else findNextsHelper xs path []) of
        Inl e \<Rightarrow> Inl e
      | Inr (RPaths ps) \<Rightarrow> Inr ps
      | Inr _ \<Rightarrow> Inr [])"

section \<open>The output boundary\<close>

text \<open>
  The top-level code of \<^verbatim>\<open>next_page_resolver.js\<close> turns the resolver's answer into pairs
  of an identifier and a file path. \<open>joinJS\<close> is \<^verbatim>\<open>Array.prototype.join\<close> on strings.
  \<^verbatim>\<open>path.join\<close> belongs to the runtime and is a parameter \<open>pathJoin\<close>; its arguments are
  passed as they are, \<open>None\<close> standing for \<^verbatim>\<open>undefined\<close> (what \<^verbatim>\<open>pop\<close> gives on an empty
  array). The pairs are then handed to \<^verbatim>\<open>Object.fromEntries\<close> and printed, which is not
  modelled.
\<close>

datatype cli_error = CouldNotFindNextPage

fun joinJS :: "string \<Rightarrow> string list \<Rightarrow> string" where
  "joinJS sep [] = []"
| "joinJS sep [x] = x"
| "joinJS sep (x # y # ys) = x @ sep @ joinJS sep (y # ys)"

definition formatEntry ::
  "string \<Rightarrow> string \<Rightarrow> string \<Rightarrow> (string option list \<Rightarrow> 'u) \<Rightarrow> string list \<Rightarrow> string \<times> 'u"
where
  "formatEntry idPrefix shared urlPrefix pathJoin resolved =
     (let file = (if resolved = [] then None else Some (last resolved));
          popped = butlast resolved;
          components = (if length popped = 0 then popped @ [shared] else popped);
          ident = idPrefix @ ''-'' @ joinJS ''_'' components;
          fp = pathJoin (Some urlPrefix # map Some components @ [file])
      in (ident, fp))"

definition formatNexts ::
  "string \<Rightarrow> string \<Rightarrow> string \<Rightarrow> (string option list \<Rightarrow> 'u) \<Rightarrow> string list list
     \<Rightarrow> cli_error + (string \<times> 'u) list"
where
  "formatNexts idPrefix shared urlPrefix pathJoin nexts =
     (if length nexts > 0 then
        (let paths = map (formatEntry idPrefix shared urlPrefix pathJoin) nexts
         in Inr (if length paths = 1 then [(idPrefix, snd (hd paths))] else paths))
      else Inl CouldNotFindNextPage)"

section \<open>Call depth\<close>

text \<open>
  The same three functions with a budget of nested calls: each call takes one unit from
  the budget it hands to the calls it makes, the iterations of a loop and the entries of
  \<^verbatim>\<open>flatMap\<close> share the budget of the call they run in, and \<open>None\<close> says that the budget
  ran out. The order of evaluation is that of the source, so an exception ends the
  evaluation before later calls are made.
\<close>

fun getNextsD :: "nat \<Rightarrow> jsval \<Rightarrow> string list \<Rightarrow> (error + found) option"
  and flatMapD ::
    "nat \<Rightarrow> (string \<times> jsval) list \<Rightarrow> string list \<Rightarrow> (error + string list option list) option"
where
  "getNextsD 0 xs directions = None"
| "getNextsD (Suc n) (JStr s) directions = Some (Inr (RPaths [directions @ [s]]))"
| "getNextsD (Suc n) (JArr xs) directions =
     (case xs of [] \<Rightarrow> Some (Inr RTrue) | x # _ \<Rightarrow> getNextsD n x directions)"
| "getNextsD (Suc n) (JObj kvs) directions =
     (case flatMapD n kvs directions of
        None \<Rightarrow> None
      | Some (Inl e) \<Rightarrow> Some (Inl e)
      | Some (Inr items) \<Rightarrow>
          (let nexts = filterIsArray items
           in if length nexts > 0 then Some (Inr (RPaths nexts)) else Some (Inr RTrue)))"
| "getNextsD (Suc n) JProto directions = Some (Inr RTrue)"
| "getNextsD (Suc n) JNull directions = Some (Inl GetNextsUnhandled)"
| "getNextsD (Suc n) (JOther t) directions = Some (Inl GetNextsUnhandled)"
| "flatMapD n [] directions = Some (Inr [])"
| "flatMapD n ((k, v) # kvs) directions =
     (case getNextsD n v (directions @ [k]) of
        None \<Rightarrow> None
      | Some (Inl e) \<Rightarrow> Some (Inl e)
      | Some (Inr f) \<Rightarrow>
          (case flatMapD n kvs directions of
             None \<Rightarrow> None
           | Some (Inl e) \<Rightarrow> Some (Inl e)
           | Some (Inr items) \<Rightarrow> Some (Inr (flatItems f @ items))))"

fun findNextsHelperD :: "nat \<Rightarrow> jsval \<Rightarrow> string list \<Rightarrow> string list \<Rightarrow> (error + found) option"
  and findLoopD ::
    "nat \<Rightarrow> found \<Rightarrow> jsval list \<Rightarrow> string list \<Rightarrow> string list \<Rightarrow> (error + found) option"
where
  "findNextsHelperD 0 xs path directions = None"
| "findNextsHelperD (Suc n) JNull path directions = Some (Inr RFalse)"
| "findNextsHelperD (Suc n) (JOther t) path directions =
     (if \<not> t then Some (Inr RFalse)
      else if length path = 0 then Some (Inr RFalse)
      else Some (Inl FindNextsUnhandled))"
| "findNextsHelperD (Suc n) (JStr s) path directions =
     (if s = [] then Some (Inr RFalse)
      else if length path = 0 then Some (Inr RFalse)
      else if length path = 1 then Some (Inr (if s = hd path then RTrue else RFalse))
      else Some (Inr RFalse))"
| "findNextsHelperD (Suc n) (JArr xs) path directions =
     (if length path = 0 then Some (Inr RFalse)
      else findLoopD n RFalse xs path directions)"
| "findNextsHelperD (Suc n) (JObj kvs) path directions =
     (if length path = 0 then Some (Inr RFalse)
      else if length path = 1 then Some (Inr RFalse)
      else findNextsHelperD n (getProp (JObj kvs) (hd path)) (tl path) (directions @ [hd path]))"
| "findNextsHelperD (Suc n) JProto path directions =
     (if length path = 0 then Some (Inr RFalse)
      else if length path = 1 then Some (Inr RFalse)
      else findNextsHelperD n (getProp JProto (hd path)) (tl path) (directions @ [hd path]))"
| "findLoopD n found [] path directions = Some (Inr found)"
| "findLoopD n found (x # xs) path directions =
     (case found of
        RFalse \<Rightarrow>
          (case findNextsHelperD n x path directions of
             None \<Rightarrow> None
           | Some (Inl e) \<Rightarrow> Some (Inl e)
           | Some (Inr found') \<Rightarrow> findLoopD n found' xs path directions)
      | RPaths ps \<Rightarrow> Some (Inr (RPaths ps))
      | RTrue \<Rightarrow>
          (case getNextsD n x directions of
             None \<Rightarrow> None
           | Some (Inl e) \<Rightarrow> Some (Inl e)
           | Some (Inr found') \<Rightarrow> findLoopD n found' xs path directions))"

fun findNextsD :: "nat \<Rightarrow> jsval \<Rightarrow> string list \<Rightarrow> (error + string list list) option" where
  "findNextsD 0 xs path = None"
| "findNextsD (Suc n) xs path =
     (case (if length path = 0 then getNextsD n xs [] else findNextsHelperD n xs path []) of
        None \<Rightarrow> None
      | Some (Inl e) \<Rightarrow> Some (Inl e)
      | Some (Inr (RPaths ps)) \<Rightarrow> Some (Inr ps)
      | Some (Inr _) \<Rightarrow> Some (Inr []))"

text \<open>The nesting depth of a value: arrays and objects count one level each.\<close>

fun depth :: "jsval \<Rightarrow> nat" where
  "depth (JArr xs) = Suc (fold max (map depth xs) 0)"
| "depth (JObj kvs) = Suc (fold max (map (\<lambda>(k, v). depth v) kvs) 0)"
| "depth _ = 0"

section \<open>Navigation trees and positions\<close>

text \<open>
  The data model of the specification, as a shape of values: a node is a Leaf (a string)
  or a GroupSet (an object whose properties are the tracks, each an array of nodes); a
  tree is an array of nodes. The keys of an object are distinct.
\<close>

fun nav_node :: "jsval \<Rightarrow> bool" and nav_tree :: "jsval \<Rightarrow> bool" where
  "nav_node (JStr s) = True"
| "nav_node (JObj kvs) = (distinct (map fst kvs) \<and> (\<forall>(k, v) \<in> set kvs. nav_tree v))"
| "nav_node _ = False"
| "nav_tree (JArr xs) = (\<forall>x \<in> set xs. nav_node x)"
| "nav_tree _ = False"

text \<open>
  \<open>has_leaf x p\<close>: the path \<open>p\<close> identifies a leaf in \<open>x\<close>, its last component being the
  leaf's name and the components before it the names of the tracks entered on the way.
\<close>

fun has_leaf :: "jsval \<Rightarrow> string list \<Rightarrow> bool" where
  "has_leaf (JStr s) p = (p = [s])"
| "has_leaf (JArr xs) p = (\<exists>x \<in> set xs. has_leaf x p)"
| "has_leaf (JObj kvs) p =
     (case p of
        [] \<Rightarrow> False
      | k # q \<Rightarrow> q \<noteq> [] \<and> (\<exists>(k', v) \<in> set kvs. k' = k \<and> has_leaf v q))"
| "has_leaf _ p = False"

text \<open>All leaves below a value in document order, each with its breadcrumb.\<close>

fun leaves :: "jsval \<Rightarrow> string list \<Rightarrow> string list list" where
  "leaves (JStr s) d = [d @ [s]]"
| "leaves (JArr xs) d = concat (map (\<lambda>x. leaves x d) xs)"
| "leaves (JObj kvs) d = concat (map (\<lambda>(k, v). leaves v (d @ [k])) kvs)"
| "leaves _ d = []"

text \<open>
  A path is \<open>plain\<close> when none of its track names is the name of a function that plain
  objects inherit.
\<close>

definition plain :: "string list \<Rightarrow> bool" where
  "plain p \<longleftrightarrow> (\<forall>k \<in> set (butlast p). \<not> inherited k)"

text \<open>
  The first descendants of a value under a breadcrumb: the paths that \<^verbatim>\<open>getNexts\<close>
  returns, none when it returns \<^verbatim>\<open>true\<close> (a dead end).
\<close>

fun found_paths :: "found \<Rightarrow> string list list" where
  "found_paths (RPaths ps) = ps"
| "found_paths _ = []"

definition as_found :: "string list list \<Rightarrow> found" where
  "as_found ps = (if ps = [] then RTrue else RPaths ps)"

definition descendants :: "jsval \<Rightarrow> string list \<Rightarrow> string list list" where
  "descendants x d = (case getNexts x d of Inr f \<Rightarrow> found_paths f | Inl e \<Rightarrow> [])"

text \<open>
  \<open>firstLive xs d\<close>: the first descendants of the first element of \<open>xs\<close> that is not a dead
  end. A frame is what remains of a sequence after a position, with the breadcrumb of
  that sequence; \<open>backtrack\<close> goes through frames from the innermost outwards and
  answers with the first one that has a live element.
\<close>

fun firstLive :: "jsval list \<Rightarrow> string list \<Rightarrow> string list list" where
  "firstLive [] d = []"
| "firstLive (x # xs) d = (if descendants x d = [] then firstLive xs d else descendants x d)"

fun backtrack :: "(jsval list \<times> string list) list \<Rightarrow> string list list" where
  "backtrack [] = []"
| "backtrack ((xs, d) # fs) = (if firstLive xs d = [] then backtrack fs else firstLive xs d)"

text \<open>
  \<open>first_leaf xs p d fs\<close>: in the sequence \<open>xs\<close>, whose breadcrumb is \<open>d\<close>, the first leaf
  in document order that the path \<open>p\<close> identifies has the frames \<open>fs\<close>: the elements after
  the leaf in its own sequence first, then the elements after the enclosing GroupSet in
  the sequence around it, and so on out to \<open>xs\<close>. The leaf is the head of the sequence
  (\<open>hit\<close>), or the first such leaf of the track that the path names in the head
  (\<open>enter\<close>), or the first such leaf of the tail when the head has none (\<open>skip\<close>).
\<close>

inductive first_leaf ::
  "jsval list \<Rightarrow> string list \<Rightarrow> string list \<Rightarrow> (jsval list \<times> string list) list \<Rightarrow> bool"
where
  hit: "first_leaf (JStr n # post) [n] d [(post, d)]"
| enter: "map_of kvs k = Some (JArr ys) \<Longrightarrow> first_leaf ys q (d @ [k]) fs \<Longrightarrow>
          first_leaf (JObj kvs # post) (k # q) d (fs @ [(post, d)])"
| skip: "\<not> has_leaf x p \<Longrightarrow> first_leaf xs p d fs \<Longrightarrow> first_leaf (x # xs) p d fs"

code_pred (modes: i \<Rightarrow> i \<Rightarrow> i \<Rightarrow> o \<Rightarrow> bool, i \<Rightarrow> i \<Rightarrow> i \<Rightarrow> i \<Rightarrow> bool) first_leaf .

text \<open>The names of the tracks of a GroupSet.\<close>

fun tracks :: "jsval \<Rightarrow> string list" where
  "tracks (JObj kvs) = map fst kvs"
| "tracks _ = []"

text \<open>A tree without its empty tracks: every track with no element is taken away.\<close>

fun drop_empty :: "jsval \<Rightarrow> jsval" where
  "drop_empty (JArr xs) = JArr (map drop_empty xs)"
| "drop_empty (JObj kvs) =
     JObj (map (\<lambda>(k, v). (k, drop_empty v)) (filter (\<lambda>(k, v). v \<noteq> JArr []) kvs))"
| "drop_empty x = x"

text \<open>
  The order of \<^verbatim>\<open>Object.entries\<close>. An object that receives its properties one by one, as
  an object literal or a loaded mapping does, lists those whose name is an array index
  (a decimal numeral without leading zero, at most 4294967294) first, in ascending numeric
  order, and the others after them in the order in which they were added. \<open>own_entries\<close>
  gives that order for properties declared in the order \<open>decl\<close> with distinct names.
\<close>

definition index_value :: "string \<Rightarrow> nat" where
  "index_value s = foldl (\<lambda>n c. 10 * n + (of_char c - 48)) 0 s"

definition array_index :: "string \<Rightarrow> bool" where
  "array_index s \<longleftrightarrow>
     s \<noteq> [] \<and> (\<forall>c \<in> set s. c \<in> set ''0123456789'') \<and> (s = ''0'' \<or> hd s \<noteq> CHR ''0'') \<and>
     index_value s \<le> 4294967294"

definition own_entries :: "(string \<times> jsval) list \<Rightarrow> (string \<times> jsval) list" where
  "own_entries decl =
     sort_key (\<lambda>(k, v). index_value k) (filter (\<lambda>(k, v). array_index k) decl) @
     filter (\<lambda>(k, v). \<not> array_index k) decl"

section \<open>The trees of the unit tests\<close>

definition basic :: jsval where
  "basic =
     JArr [JStr ''config.js'',
           JObj [(''src'', JArr [JStr ''index.js'', JStr ''utils.js''])],
           JStr ''readme.md'']"

definition complex :: jsval where
  "complex =
     JArr [JStr ''start.js'',
           JObj [(''lib'',
                  JArr [JObj [(''utils'', JArr [JStr ''helper.js'', JStr ''math.js''])],
                        JStr ''index.js''])],
           JObj [(''test'', JArr [JStr ''spec.js''])],
           JStr ''end.js'']"

definition emptyDirs :: jsval where
  "emptyDirs = JArr [JStr ''file1.js'', JObj [(''empty'', JArr [])], JStr ''file2.js'']"

definition multiDir :: jsval where
  "multiDir =
     JArr [JStr ''a.js'',
           JObj [(''shared'', JArr [JStr ''x.js''])],
           JStr ''b.js'',
           JObj [(''shared'', JArr [JStr ''y.js'', JStr ''z.js''])],
           JStr ''c.js'']"

definition nested :: jsval where
  "nested =
     JArr [JObj [(''deep'',
                  JArr [JObj [(''nested'', JArr [JObj [(''very'', JArr [JStr ''deep.js''])]])]])],
           JStr ''surface.js'']"

definition mixedComplex :: jsval where
  "mixedComplex =
     JArr [JStr ''pre.js'',
           JObj [(''main'',
                  JArr [JStr ''first.js'',
                        JObj [(''sub'', JArr [JStr ''nested.js''])],
                        JStr ''last.js''])],
           JObj [(''main'', JArr [JStr ''duplicate.js''])],
           JStr ''post.js'']"

definition dirOnly :: jsval where
  "dirOnly =
     JArr [JObj [(''dir1'', JArr [JObj [(''subdir'', JArr [JStr ''file.js''])]])],
           JObj [(''dir2'', JArr [JStr ''other.js''])]]"

definition tripleDir :: jsval where
  "tripleDir =
     JArr [JObj [(''same'', JArr [JStr ''a.js''])],
           JStr ''middle.js'',
           JObj [(''same'', JArr [JStr ''b.js'', JStr ''c.js''])],
           JStr ''end.js'',
           JObj [(''same'', JArr [JStr ''d.js''])]]"

definition deepNest :: jsval where
  "deepNest =
     JArr [JObj [(''a'',
             JArr [JObj [(''b'',
                     JArr [JObj [(''c'',
                             JArr [JObj [(''d'', JArr [JStr ''deep.js''])],
                                   JStr ''mid.js''])],
                           JStr ''shallow.js''])]])],
           JStr ''root.js'']"

section \<open>Auxiliary facts\<close>

lemmas eval_simps =
  findNexts_def descendants_def filterIsArray_def plain_def
  inherited_def object_prototype_functions_def

lemma flatMapJS_Inr: "flatMapJS (map Inr fs) = Inr (concat (map flatItems fs))"
  by (induction fs) auto

lemma filterIsArray_append: "filterIsArray (xs @ ys) = filterIsArray xs @ filterIsArray ys"
  by (simp add: filterIsArray_def List.map_filter_def)

lemma filterIsArray_flatItems: "filterIsArray (flatItems f) = found_paths f"
  by (cases f) (simp_all add: filterIsArray_def List.map_filter_def comp_def)

lemma filterIsArray_concat:
  "filterIsArray (concat (map flatItems fs)) = concat (map found_paths fs)"
proof (induction fs)
  case Nil
  show ?case by (simp add: filterIsArray_def)
next
  case (Cons f fs)
  then show ?case by (simp add: filterIsArray_append filterIsArray_flatItems)
qed

lemma getNexts_nav:
  "nav_node x \<or> nav_tree x \<Longrightarrow> getNexts x d = Inr (as_found (descendants x d))"
proof (induction x d rule: getNexts.induct)
  case (1 s directions)
  then show ?case by (simp add: descendants_def as_found_def)
next
  case (2 xs directions)
  then show ?case by (cases xs) (auto simp: descendants_def as_found_def)
next
  case (3 kvs directions)
  define fs where "fs = map (\<lambda>(k, v). as_found (descendants v (directions @ [k]))) kvs"
  have eq: "map (\<lambda>(k, v). getNexts v (directions @ [k])) kvs = map Inr fs"
    using 3 by (auto simp: fs_def)
  have "getNexts (JObj kvs) directions = Inr (as_found (concat (map found_paths fs)))"
    by (simp add: eq flatMapJS_Inr filterIsArray_concat as_found_def Let_def)
  then show ?case
    by (simp add: descendants_def as_found_def)
qed auto

lemma plain_tl: "plain (k # q) \<Longrightarrow> q \<noteq> [] \<Longrightarrow> plain q \<and> \<not> inherited k"
  by (cases q) (auto simp: plain_def)

lemma getProp_own: "map_of kvs k = Some v \<Longrightarrow> getProp (JObj kvs) k = v"
  by simp

lemma getProp_plain:
  "\<not> inherited k \<Longrightarrow> map_of kvs k = None \<Longrightarrow>
   getProp (JObj kvs) k = JNull \<or> getProp (JObj kvs) k = JProto"
  by (simp add: inherited_def)

lemma findNextsHelper_JProto: "plain q \<Longrightarrow> findNextsHelper JProto q d = Inr RFalse"
proof (cases q)
  case Nil
  then show ?thesis by simp
next
  case (Cons a r)
  assume pl: "plain q"
  show ?thesis
  proof (cases r)
    case Nil
    then show ?thesis using Cons by simp
  next
    case (Cons b r')
    then have "\<not> inherited a" using pl \<open>q = a # r\<close> by (simp add: plain_def)
    then have "getProp JProto a = JNull" by (simp add: inherited_def)
    then show ?thesis using Cons \<open>q = a # r\<close> by (simp del: getProp.simps)
  qed
qed

lemma not_found:
  "(nav_node x \<or> nav_tree x) \<Longrightarrow> plain p \<Longrightarrow> \<not> has_leaf x p \<Longrightarrow>
     findNextsHelper x p d = Inr RFalse"
  "f = RFalse \<Longrightarrow> \<forall>x \<in> set xs. nav_node x \<Longrightarrow> plain p \<Longrightarrow> \<forall>x \<in> set xs. \<not> has_leaf x p \<Longrightarrow>
     findLoop f xs p d = Inr RFalse"
proof (induction x p d and f xs p d rule: findNextsHelper_findLoop.induct)
  case (3 s path directions)
  then show ?case by (cases path) auto
next
  case (5 kvs path directions)
  show ?case
  proof (cases path)
    case Nil
    then show ?thesis by simp
  next
    case (Cons k q)
    show ?thesis
    proof (cases "q = []")
      case True
      then show ?thesis using Cons by simp
    next
      case False
      with 5 Cons have pl: "plain q" "\<not> inherited k" using plain_tl by auto
      show ?thesis
      proof (cases "map_of kvs k")
        case None
        then have "getProp (JObj kvs) k = JNull \<or> getProp (JObj kvs) k = JProto"
          using pl by (intro getProp_plain)
        then show ?thesis
          using Cons False pl findNextsHelper_JProto[of q "directions @ [k]"]
          by (auto simp del: getProp.simps)
      next
        case (Some v)
        then have mem: "(k, v) \<in> set kvs" by (rule map_of_SomeD)
        with 5 have nv: "nav_tree v" by auto
        from mem 5 Cons False have nl: "\<not> has_leaf v q" by auto
        have gp: "getProp (JObj kvs) k = v" using Some by (rule getProp_own)
        have "findNextsHelper v q (directions @ [k]) = Inr RFalse"
          using "5.IH" Cons False gp nv pl nl by simp
        then show ?thesis using Cons False gp by (simp del: getProp.simps)
      qed
    qed
  qed
qed auto

lemma findLoop_paths: "findLoop (RPaths ps) xs p d = Inr (RPaths ps)"
  by (cases xs) simp_all

lemma as_found_not_false: "as_found ps \<noteq> RFalse"
  by (simp add: as_found_def)

lemma findLoop_true:
  "\<forall>x \<in> set xs. nav_node x \<Longrightarrow> findLoop RTrue xs p d = Inr (as_found (firstLive xs d))"
proof (induction xs)
  case Nil
  then show ?case by (simp add: as_found_def)
next
  case (Cons x xs)
  then have g: "getNexts x d = Inr (as_found (descendants x d))"
    by (simp add: getNexts_nav)
  show ?case
  proof (cases "descendants x d = []")
    case True
    then show ?thesis using g Cons by (simp add: as_found_def)
  next
    case False
    then show ?thesis using g by (simp add: as_found_def findLoop_paths)
  qed
qed

lemma findLoop_skip:
  "\<forall>x \<in> set pre. nav_node x \<Longrightarrow> plain p \<Longrightarrow> \<forall>x \<in> set pre. \<not> has_leaf x p \<Longrightarrow>
   findLoop RFalse (pre @ rest) p d = findLoop RFalse rest p d"
proof (induction pre)
  case Nil
  then show ?case by simp
next
  case (Cons x pre)
  then have "findNextsHelper x p d = Inr RFalse"
    by (simp add: not_found(1))
  then show ?case using Cons by simp
qed

lemma findLoop_after:
  "\<forall>x \<in> set post. nav_node x \<Longrightarrow>
   findLoop (as_found ps) post p d = Inr (as_found (if ps = [] then firstLive post d else ps))"
  by (simp add: as_found_def findLoop_paths findLoop_true)

lemma backtrack_append:
  "backtrack (fs @ [(post, d)]) = (if backtrack fs = [] then firstLive post d else backtrack fs)"
  by (induction fs rule: backtrack.induct) auto

lemma first_leaf_nonempty: "first_leaf xs p d fs \<Longrightarrow> p \<noteq> []"
  by (induction rule: first_leaf.induct) auto

lemma first_leaf_resolves:
  "first_leaf xs p d fs \<Longrightarrow> \<forall>x \<in> set xs. nav_node x \<Longrightarrow> plain p \<Longrightarrow> last p \<noteq> [] \<Longrightarrow>
   findLoop RFalse xs p d = Inr (as_found (backtrack fs))"
proof (induction rule: first_leaf.induct)
  case (hit n post d)
  then have "findLoop RFalse (JStr n # post) [n] d = findLoop RTrue post [n] d"
    by simp
  also have "\<dots> = Inr (as_found (firstLive post d))"
    using hit by (intro findLoop_true) auto
  finally show ?case by simp
next
  case (enter kvs k ys q d fs post)
  have q: "q \<noteq> []" using enter.hyps(2) by (rule first_leaf_nonempty)
  with enter.prems have pl: "plain q" using plain_tl by auto
  have mem: "(k, JArr ys) \<in> set kvs" using enter.hyps(1) by (rule map_of_SomeD)
  with enter.prems have ys: "\<forall>x \<in> set ys. nav_node x" by auto
  have gp: "getProp (JObj kvs) k = JArr ys"
    using enter.hyps(1) by (rule getProp_own)
  have inner: "findLoop RFalse ys q (d @ [k]) = Inr (as_found (backtrack fs))"
    using enter.IH ys pl q enter.prems by simp
  have "findLoop RFalse (JObj kvs # post) (k # q) d
          = findLoop (as_found (backtrack fs)) post (k # q) d"
    using q gp inner by (simp del: getProp.simps)
  also have "\<dots> = Inr (as_found (if backtrack fs = [] then firstLive post d else backtrack fs))"
    using enter.prems by (intro findLoop_after) auto
  finally show ?case by (simp add: backtrack_append)
next
  case (skip x p xs d fs)
  then have "findNextsHelper x p d = Inr RFalse"
    by (intro not_found(1)) auto
  then show ?case using skip by simp
qed

lemma first_leaf_breadcrumb:
  "first_leaf xs p d fs \<Longrightarrow> \<exists>post st. fs = (post, d @ butlast p) # st"
proof (induction rule: first_leaf.induct)
  case (hit n post d)
  then show ?case by simp
next
  case (enter kvs k ys q d fs post)
  then obtain post' st where "fs = (post', (d @ [k]) @ butlast q) # st" by blast
  moreover have "q \<noteq> []" using enter.hyps(2) by (rule first_leaf_nonempty)
  ultimately show ?case by simp
next
  case (skip x p xs d fs)
  then show ?case by simp
qed

lemma firstLive_skip:
  "\<forall>m \<in> set mid. descendants m d = [] \<Longrightarrow> descendants y d \<noteq> [] \<Longrightarrow>
   firstLive (mid @ y # post) d = descendants y d"
  by (induction mid) auto

lemma findNexts_first_leaf:
  assumes "nav_tree (JArr T)" "plain p" "last p \<noteq> []" "first_leaf T p [] fs"
  shows "findNexts (JArr T) p = Inr (backtrack fs)"
proof -
  have ne: "p \<noteq> []" using assms(4) by (rule first_leaf_nonempty)
  have "findLoop RFalse T p [] = Inr (as_found (backtrack fs))"
    using assms by (intro first_leaf_resolves) auto
  then show ?thesis using ne
    by (simp add: findNexts_def as_found_def)
qed

lemma descendants_JStr: "descendants (JStr s) d = [d @ [s]]"
  by (simp add: descendants_def)

lemma descendants_JArr:
  "descendants (JArr xs) d = (case xs of [] \<Rightarrow> [] | x # _ \<Rightarrow> descendants x d)"
  by (cases xs) (simp_all add: descendants_def)

lemma descendants_JObj:
  assumes "nav_node (JObj kvs)"
  shows "descendants (JObj kvs) d = concat (map (\<lambda>(k, v). descendants v (d @ [k])) kvs)"
proof -
  define fs where "fs = map (\<lambda>(k, v). as_found (descendants v (d @ [k]))) kvs"
  have eq: "map (\<lambda>(k, v). getNexts v (d @ [k])) kvs = map Inr fs"
    using assms by (auto simp: fs_def getNexts_nav)
  have "found_paths \<circ> (\<lambda>(k, v). as_found (descendants v (d @ [k])))
          = (\<lambda>(k, v). descendants v (d @ [k]))"
    by (auto simp: fun_eq_iff as_found_def)
  then have "concat (map found_paths fs) = concat (map (\<lambda>(k, v). descendants v (d @ [k])) kvs)"
    by (simp add: fs_def)
  then show ?thesis
    by (simp add: descendants_def eq flatMapJS_Inr filterIsArray_concat Let_def)
qed

lemma descendants_breadcrumb:
  "nav_node x \<or> nav_tree x \<Longrightarrow> descendants x (d @ e) = map ((@) d) (descendants x e)"
proof (induction x e rule: getNexts.induct)
  case (1 s directions)
  then show ?case by (simp add: descendants_JStr)
next
  case (2 xs directions)
  then show ?case by (cases xs) (auto simp: descendants_JArr)
next
  case (3 kvs directions)
  then have nav: "nav_node (JObj kvs)" by auto
  have "\<And>k v. (k, v) \<in> set kvs \<Longrightarrow>
          descendants v (d @ directions @ [k]) = map ((@) d) (descendants v (directions @ [k]))"
    using 3 by auto
  then have eq: "map (\<lambda>(k, v). descendants v ((d @ directions) @ [k])) kvs
           = map (\<lambda>(k, v). map ((@) d) (descendants v (directions @ [k]))) kvs"
    by auto
  have "descendants (JObj kvs) (d @ directions)
          = concat (map (\<lambda>(k, v). descendants v ((d @ directions) @ [k])) kvs)"
    by (rule descendants_JObj[OF nav])
  also have "\<dots> = concat (map (\<lambda>(k, v). map ((@) d) (descendants v (directions @ [k]))) kvs)"
    by (simp only: eq)
  also have "\<dots> = map ((@) d) (concat (map (\<lambda>(k, v). descendants v (directions @ [k])) kvs))"
    by (simp add: map_concat comp_def case_prod_unfold)
  also have "\<dots> = map ((@) d) (descendants (JObj kvs) directions)"
    by (simp only: descendants_JObj[OF nav])
  finally show ?case .
qed auto

lemma subseq_concat_map:
  "(\<And>x. x \<in> set xs \<Longrightarrow> subseq (f x) (g x)) \<Longrightarrow> subseq (concat (map f xs)) (concat (map g xs))"
  by (induction xs) (auto intro: list_emb_append_mono)

lemma descendants_leaves:
  "nav_node x \<or> nav_tree x \<Longrightarrow> subseq (descendants x d) (leaves x d)"
proof (induction x d rule: getNexts.induct)
  case (1 s directions)
  then show ?case by (simp add: descendants_JStr)
next
  case (2 xs directions)
  then show ?case by (cases xs) (auto simp: descendants_JArr intro: list_emb_prefix)
next
  case (3 kvs directions)
  then have nav: "nav_node (JObj kvs)" by auto
  have "subseq (concat (map (\<lambda>(k, v). descendants v (directions @ [k])) kvs))
               (concat (map (\<lambda>(k, v). leaves v (directions @ [k])) kvs))"
    using 3 by (intro subseq_concat_map) auto
  then show ?case by (simp add: descendants_JObj[OF nav])
qed auto

lemma findNexts_empty_path:
  "nav_node x \<or> nav_tree x \<Longrightarrow> findNexts x [] = Inr (descendants x [])"
  by (simp add: findNexts_def getNexts_nav as_found_def)

lemma descendants_tracks:
  assumes "nav_node (JObj kvs)"
  shows "descendants (JObj kvs) d
           = concat (map (\<lambda>(k, v). map (\<lambda>q. d @ k # q) (descendants v [])) kvs)"
proof -
  have "\<And>k v. (k, v) \<in> set kvs \<Longrightarrow>
          descendants v (d @ [k]) = map (\<lambda>q. d @ k # q) (descendants v [])"
    using assms descendants_breadcrumb[of _ "d @ [_]" "[]"] by auto
  then have "map (\<lambda>(k, v). descendants v (d @ [k])) kvs
           = map (\<lambda>(k, v). map (\<lambda>q. d @ k # q) (descendants v [])) kvs"
    by auto
  then show ?thesis by (simp only: descendants_JObj[OF assms])
qed

lemma fold_max_ge: "n \<in> set ns \<Longrightarrow> n \<le> fold max ns (a::nat)"
proof -
  assume "n \<in> set ns"
  then have "n \<le> Max (set (a # ns))" by simp
  then show ?thesis by (simp only: Max.set_eq_fold)
qed

lemma depth_JArr: "x \<in> set xs \<Longrightarrow> depth x < depth (JArr xs)"
  using fold_max_ge[of "depth x" "map depth xs" 0] by simp

lemma depth_JObj: "(k, v) \<in> set kvs \<Longrightarrow> depth v < depth (JObj kvs)"
proof -
  assume "(k, v) \<in> set kvs"
  then have "depth v \<in> set (map (\<lambda>(k, v). depth v) kvs)" by force
  then show ?thesis using fold_max_ge[of "depth v" "map (\<lambda>(k, v). depth v) kvs" 0] by simp
qed

lemma getNextsD_enough:
  "depth x < n \<Longrightarrow> getNextsD n x d = Some (getNexts x d)"
  "(\<And>k v. (k, v) \<in> set kvs \<Longrightarrow> depth v < n) \<Longrightarrow>
     flatMapD n kvs d = Some (flatMapJS (map (\<lambda>(k, v). getNexts v (d @ [k])) kvs))"
proof (induction n x d and n kvs d rule: getNextsD_flatMapD.induct)
  case (3 n xs directions)
  show ?case
  proof (cases xs)
    case Nil
    then show ?thesis by simp
  next
    case (Cons y ys)
    then have "depth y < n" using 3(2) depth_JArr[of y xs] by simp
    then show ?thesis using 3(1) Cons by simp
  qed
next
  case (4 n kvs directions)
  have "\<And>k v. (k, v) \<in> set kvs \<Longrightarrow> depth v < n"
    using 4(2) depth_JObj by fastforce
  then have "flatMapD n kvs directions
      = Some (flatMapJS (map (\<lambda>(k, v). getNexts v (directions @ [k])) kvs))"
    by (rule 4(1))
  then show ?case by (simp add: Let_def split: sum.splits)
next
  case (9 n k v kvs directions)
  have dv: "depth v < n" using 9(3)[of k v] by simp
  have a: "getNextsD n v (directions @ [k]) = Some (getNexts v (directions @ [k]))"
    using 9(1)[OF dv] .
  have rest: "\<And>k' v'. (k', v') \<in> set kvs \<Longrightarrow> depth v' < n"
    using 9(3) by auto
  show ?case
  proof (cases "getNexts v (directions @ [k])")
    case (Inl e)
    then show ?thesis using a by simp
  next
    case (Inr f)
    have "flatMapD n kvs directions
      = Some (flatMapJS (map (\<lambda>(k, v). getNexts v (directions @ [k])) kvs))"
      using 9(2)[of "Inr f" f] a Inr rest by simp
    then show ?thesis using a Inr by (simp split: sum.splits)
  qed
qed simp_all

lemma depth_getProp:
  "depth (JObj kvs) + 2 \<le> Suc n \<Longrightarrow> depth (getProp (JObj kvs) k) + 2 \<le> n"
proof (cases "map_of kvs k")
  case None
  assume "depth (JObj kvs) + 2 \<le> Suc n"
  then have "2 \<le> n" by simp
  then show ?thesis using None by simp
next
  case (Some v)
  assume h: "depth (JObj kvs) + 2 \<le> Suc n"
  have "(k, v) \<in> set kvs" using Some by (rule map_of_SomeD)
  then have "depth v < depth (JObj kvs)" by (rule depth_JObj)
  then show ?thesis using h Some by simp
qed

lemma findNextsHelperD_shallow:
  "depth x = 0 \<Longrightarrow> x \<noteq> JProto \<Longrightarrow>
   findNextsHelperD (Suc m) x p d = Some (findNextsHelper x p d)"
  by (cases x) simp_all

lemma findNextsHelperD_enough:
  "depth x + 2 \<le> n \<Longrightarrow> findNextsHelperD n x p d = Some (findNextsHelper x p d)"
  "(\<And>x. x \<in> set xs \<Longrightarrow> depth x + 2 \<le> n) \<Longrightarrow> findLoopD n f xs p d = Some (findLoop f xs p d)"
proof (induction n x p d and n f xs p d rule: findNextsHelperD_findLoopD.induct)
  case (5 n xs path directions)
  have "\<And>x. x \<in> set xs \<Longrightarrow> depth x + 2 \<le> n"
    using 5(2) depth_JArr by fastforce
  then show ?case using 5(1) by simp
next
  case (6 n kvs path directions)
  have "depth (getProp (JObj kvs) (hd path)) + 2 \<le> n"
    using 6(2) by (rule depth_getProp)
  then show ?case using 6(1) by (simp del: getProp.simps)
next
  case (7 n path directions)
  from 7(2) obtain m where n: "n = Suc m" by (cases n) auto
  have "depth (getProp JProto (hd path)) = 0" "getProp JProto (hd path) \<noteq> JProto"
    by simp_all
  then have "findNextsHelperD (Suc m) (getProp JProto (hd path)) (tl path) (directions @ [hd path])
      = Some (findNextsHelper (getProp JProto (hd path)) (tl path) (directions @ [hd path]))"
    by (rule findNextsHelperD_shallow)
  then show ?case using n by (simp del: getProp.simps)
next
  case (9 n found x xs path directions)
  have dx: "depth x + 2 \<le> n" using 9(4)[of x] by simp
  have rest: "\<And>y. y \<in> set xs \<Longrightarrow> depth y + 2 \<le> n" using 9(4) by auto
  show ?case
  proof (cases found)
    case RFalse
    have a: "findNextsHelperD n x path directions = Some (findNextsHelper x path directions)"
      using 9(1)[OF RFalse dx] .
    show ?thesis
    proof (cases "findNextsHelper x path directions")
      case (Inl e)
      then show ?thesis using a RFalse by simp
    next
      case (Inr f')
      have "findLoopD n f' xs path directions = Some (findLoop f' xs path directions)"
        using 9(2)[OF RFalse _ _ rest, of "Inr f'" f'] a Inr by simp
      then show ?thesis using a RFalse Inr by simp
    qed
  next
    case RTrue
    have a: "getNextsD n x directions = Some (getNexts x directions)"
      using dx by (intro getNextsD_enough(1)) simp
    show ?thesis
    proof (cases "getNexts x directions")
      case (Inl e)
      then show ?thesis using a RTrue by simp
    next
      case (Inr f')
      have "findLoopD n f' xs path directions = Some (findLoop f' xs path directions)"
        using 9(3)[OF RTrue _ _ rest, of "Inr f'" f'] a Inr by simp
      then show ?thesis using a RTrue Inr by simp
    qed
  next
    case (RPaths ps)
    then show ?thesis by simp
  qed
qed simp_all

lemma firstLive_dead: "\<forall>m \<in> set post. descendants m d = [] \<Longrightarrow> firstLive post d = []"
  by (induction post) auto

lemma has_leaf_nonempty: "has_leaf x p \<Longrightarrow> p \<noteq> []"
  by (induction x p rule: has_leaf.induct) auto

lemma first_leaf_exists:
  "\<forall>x \<in> set xs. nav_node x \<Longrightarrow> \<exists>x \<in> set xs. has_leaf x p \<Longrightarrow> \<exists>fs. first_leaf xs p d fs"
proof (induction p arbitrary: xs d)
  case Nil
  then show ?case using has_leaf_nonempty by blast
next
  case (Cons k q)
  from Cons.prems show ?case
  proof (induction xs)
    case Nil
    then show ?case by simp
  next
    case (Cons x xs)
    show ?case
    proof (cases "has_leaf x (k # q)")
      case False
      then have "\<exists>y \<in> set xs. has_leaf y (k # q)" using Cons.prems(2) by simp
      then obtain fs where "first_leaf xs (k # q) d fs"
        using Cons.IH Cons.prems(1) by auto
      then show ?thesis using False first_leaf.skip by blast
    next
      case True
      have nx: "nav_node x" using Cons.prems(1) by simp
      show ?thesis
      proof (cases x)
        case (JStr n)
        then have "k # q = [n]" using True by simp
        then show ?thesis using first_leaf.hit[of n xs d] JStr by auto
      next
        case (JObj kvs)
        then obtain v where q: "q \<noteq> []" and mem: "(k, v) \<in> set kvs" and hv: "has_leaf v q"
          using True by auto
        have "nav_tree v" using nx JObj mem by auto
        then obtain ys where v: "v = JArr ys" and ys: "\<forall>y \<in> set ys. nav_node y"
          by (cases v) auto
        have "distinct (map fst kvs)" using nx JObj by simp
        then have mo: "map_of kvs k = Some (JArr ys)" using mem v by simp
        have "\<exists>y \<in> set ys. has_leaf y q" using hv v by simp
        then obtain fs where "first_leaf ys q (d @ [k]) fs"
          using \<open>\<And>xs d. \<forall>x\<in>set xs. nav_node x \<Longrightarrow> \<exists>x\<in>set xs. has_leaf x q \<Longrightarrow> \<exists>fs. first_leaf xs q d fs\<close>[OF ys]
          by blast
        then have "first_leaf (JObj kvs # xs) (k # q) d (fs @ [(xs, d)])"
          using mo by (intro first_leaf.enter)
        then show ?thesis using JObj by blast
      qed (use nx in auto)
    qed
  qed
qed

lemma map_of_drop:
  "distinct (map fst kvs) \<Longrightarrow>
   map_of (map (\<lambda>(k, v). (k, f v)) (filter (\<lambda>(k, v). P v) kvs)) k
     = (case map_of kvs k of None \<Rightarrow> None | Some v \<Rightarrow> if P v then Some (f v) else None)"
proof (induction kvs)
  case Nil
  then show ?case by simp
next
  case (Cons kv kvs)
  obtain k' v' where kv: "kv = (k', v')" by (cases kv)
  have "k' \<notin> fst ` set kvs" using Cons.prems kv by simp
  then have "map_of kvs k' = None" by (simp add: map_of_eq_None_iff)
  then show ?case using Cons kv by (auto split: option.splits)
qed

lemma fst_drop:
  "map fst (map (\<lambda>(k, v). (k, f v)) (filter (\<lambda>(k, v). P v) kvs))
     = map fst (filter (\<lambda>(k, v). P v) kvs)"
  by (induction kvs) auto

lemma nav_drop_empty:
  "(nav_node x \<longrightarrow> nav_node (drop_empty x)) \<and> (nav_tree x \<longrightarrow> nav_tree (drop_empty x))"
proof (induction x rule: drop_empty.induct)
  case (2 kvs)
  let ?kvs' = "map (\<lambda>(k, v). (k, drop_empty v)) (filter (\<lambda>(k, v). v \<noteq> JArr []) kvs)"
  have "nav_node (JObj ?kvs')" if n: "nav_node (JObj kvs)"
  proof -
    have "distinct (map fst kvs)" using n by simp
    then have d: "distinct (map fst ?kvs')"
      by (simp only: fst_drop distinct_map_filter)
    have nt: "nav_tree v'" if "(k, v') \<in> set ?kvs'" for k v'
    proof -
      from that obtain v where v: "(k, v) \<in> set kvs" "v \<noteq> JArr []" "v' = drop_empty v"
        by auto
      then have "nav_tree v" using n by auto
      then show ?thesis using 2[of "(k, v)" k v] v by simp
    qed
    have "\<forall>(k, v) \<in> set ?kvs'. nav_tree v"
    proof (rule ballI)
      fix kv assume m: "kv \<in> set ?kvs'"
      obtain k v where kv: "kv = (k, v)" by (cases kv)
      then have "(k, v) \<in> set ?kvs'" using m by (simp only:)
      then have "nav_tree v" by (rule nt)
      then show "case kv of (k, v) \<Rightarrow> nav_tree v" using kv by (simp only: prod.case)
    qed
    then show ?thesis using d by (simp only: nav_node.simps)
  qed
  moreover have "nav_node (drop_empty (JObj kvs)) = nav_node (JObj ?kvs')"
    by (simp only: drop_empty.simps)
  moreover have "\<not> nav_tree (JObj kvs)" by simp
  ultimately show ?case by blast
qed auto

lemma descendants_drop_empty:
  "nav_node x \<or> nav_tree x \<Longrightarrow> descendants (drop_empty x) d = descendants x d"
proof (induction x d rule: getNexts.induct)
  case (1 s directions)
  then show ?case by simp
next
  case (2 xs directions)
  then show ?case by (cases xs) (auto simp: descendants_JArr)
next
  case (3 kvs directions)
  then have nav: "nav_node (JObj kvs)" by auto
  have "nav_node (drop_empty (JObj kvs))"
    using nav nav_drop_empty[of "JObj kvs"] by blast
  then have nav': "nav_node (JObj (map (\<lambda>(k, v). (k, drop_empty v))
                                      (filter (\<lambda>(k, v). v \<noteq> JArr []) kvs)))"
    by (simp only: drop_empty.simps)
  have ih: "\<And>k v. (k, v) \<in> set kvs \<Longrightarrow>
              descendants (drop_empty v) (directions @ [k]) = descendants v (directions @ [k])"
    using 3 by auto
  have "concat (map (\<lambda>(k, v). descendants v (directions @ [k]))
                 (map (\<lambda>(k, v). (k, drop_empty v)) (filter (\<lambda>(k, v). v \<noteq> JArr []) kvs)))
        = concat (map (\<lambda>(k, v). descendants v (directions @ [k])) kvs)"
    using ih
  proof (induction kvs)
    case Nil
    then show ?case by simp
  next
    case (Cons kv kvs)
    obtain k v where kv: "kv = (k, v)" by (cases kv)
    show ?case
    proof (cases "v = JArr []")
      case True
      then show ?thesis using Cons kv by (simp add: descendants_JArr)
    next
      case False
      then show ?thesis using Cons kv by simp
    qed
  qed
  then show ?case
    using descendants_JObj[OF nav, of directions] descendants_JObj[OF nav', of directions]
    by simp
qed auto

lemma getNexts_drop_empty:
  "nav_node x \<or> nav_tree x \<Longrightarrow> getNexts (drop_empty x) d = getNexts x d"
  using nav_drop_empty[of x] by (auto simp: getNexts_nav descendants_drop_empty)

lemma getProp_drop_empty:
  assumes "distinct (map fst kvs)"
  shows "getProp (JObj (map (\<lambda>(k, v). (k, drop_empty v)) (filter (\<lambda>(k, v). v \<noteq> JArr []) kvs))) k
     = (case map_of kvs k of
          None \<Rightarrow> getProp (JObj []) k
        | Some v \<Rightarrow> if v \<noteq> JArr [] then drop_empty v else getProp (JObj []) k)"
  by (simp add: map_of_drop[OF assms] split: option.splits)

lemma findNextsHelper_inherit:
  "plain (k # q) \<Longrightarrow> q \<noteq> [] \<Longrightarrow> findNextsHelper (getProp (JObj []) k) q d = Inr RFalse"
proof -
  assume pl: "plain (k # q)" and q: "q \<noteq> []"
  then have "plain q" "\<not> inherited k" using plain_tl by auto
  then have "getProp (JObj []) k = JNull \<or> getProp (JObj []) k = JProto"
    by (intro getProp_plain) simp_all
  then show ?thesis
  proof
    assume "getProp (JObj []) k = JNull"
    then show ?thesis by (simp only: findNextsHelper.simps)
  next
    assume "getProp (JObj []) k = JProto"
    then show ?thesis using findNextsHelper_JProto[OF \<open>plain q\<close>, of d] by (simp only:)
  qed
qed

lemma find_drop_empty:
  "(nav_node x \<or> nav_tree x) \<Longrightarrow> plain p \<Longrightarrow>
     findNextsHelper (drop_empty x) p d = findNextsHelper x p d"
  "\<forall>x \<in> set xs. nav_node x \<Longrightarrow> plain p \<Longrightarrow>
     findLoop f (map drop_empty xs) p d = findLoop f xs p d"
proof (induction x p d and f xs p d rule: findNextsHelper_findLoop.induct)
  case (4 xs path directions)
  then show ?case by simp
next
  case (5 kvs path directions)
  show ?case
  proof (cases path)
    case Nil
    then show ?thesis by simp
  next
    case (Cons k q)
    show ?thesis
    proof (cases "q = []")
      case True
      then show ?thesis using Cons by simp
    next
      case False
      have nav: "nav_node (JObj kvs)" using 5(2) by simp
      then have dist: "distinct (map fst kvs)" by simp
      have pl: "plain (k # q)" using 5(3) Cons by simp
      then have plq: "plain q" using plain_tl False by blast
      have inh: "\<And>d'. findNextsHelper (getProp (JObj []) k) q d' = Inr RFalse"
        using pl False by (rule findNextsHelper_inherit)
      let ?kvs' = "map (\<lambda>(k, v). (k, drop_empty v)) (filter (\<lambda>(k, v). v \<noteq> JArr []) kvs)"
      have lhs: "findNextsHelper (drop_empty (JObj kvs)) path directions
                  = findNextsHelper (getProp (JObj ?kvs') k) q (directions @ [k])"
        using Cons False by (simp del: getProp.simps)
      have rhs: "findNextsHelper (JObj kvs) path directions
                  = findNextsHelper (getProp (JObj kvs) k) q (directions @ [k])"
        using Cons False by (simp del: getProp.simps)
      show ?thesis
      proof (cases "map_of kvs k")
        case None
        then have "getProp (JObj ?kvs') k = getProp (JObj []) k"
          by (simp only: getProp_drop_empty[OF dist] option.case)
        moreover have "getProp (JObj kvs) k = getProp (JObj []) k" using None by simp
        ultimately show ?thesis using lhs rhs by simp
      next
        case (Some v)
        then have gv: "getProp (JObj kvs) k = v" by (rule getProp_own)
        have mem: "(k, v) \<in> set kvs" using Some by (rule map_of_SomeD)
        then have nv: "nav_tree v" using nav by auto
        show ?thesis
        proof (cases "v = JArr []")
          case True
          then have "getProp (JObj ?kvs') k = getProp (JObj []) k"
            using Some by (simp only: getProp_drop_empty[OF dist] option.case) simp
          then have "findNextsHelper (drop_empty (JObj kvs)) path directions = Inr RFalse"
            using lhs inh by simp
          moreover have "findNextsHelper (JObj kvs) path directions = Inr RFalse"
            using rhs gv True False by simp
          ultimately show ?thesis by simp
        next
          case nonempty: False
          then have "getProp (JObj ?kvs') k = drop_empty v"
            using Some by (simp only: getProp_drop_empty[OF dist] option.case) simp
          moreover have "findNextsHelper (drop_empty v) q (directions @ [k])
                          = findNextsHelper v q (directions @ [k])"
            using "5.IH" Cons False gv nv plq by simp
          ultimately show ?thesis using lhs rhs gv by simp
        qed
      qed
    qed
  qed
next
  case (8 found x xs path directions)
  have nx: "nav_node x" and nxs: "\<forall>y \<in> set xs. nav_node y" using 8(4) by simp_all
  show ?case
  proof (cases found)
    case RFalse
    have a: "findNextsHelper (drop_empty x) path directions = findNextsHelper x path directions"
      using 8(1)[OF RFalse] nx 8(5) by simp
    show ?thesis
    proof (cases "findNextsHelper x path directions")
      case (Inl e)
      then show ?thesis using a RFalse by simp
    next
      case (Inr f')
      have "findLoop f' (map drop_empty xs) path directions = findLoop f' xs path directions"
        using 8(2)[OF RFalse Inr nxs 8(5)] .
      then show ?thesis using a RFalse Inr by simp
    qed
  next
    case RTrue
    have a: "getNexts (drop_empty x) directions = getNexts x directions"
      using nx by (simp add: getNexts_drop_empty)
    show ?thesis
    proof (cases "getNexts x directions")
      case (Inl e)
      then show ?thesis using a RTrue by simp
    next
      case (Inr f')
      have "findLoop f' (map drop_empty xs) path directions = findLoop f' xs path directions"
        using 8(3)[OF RTrue Inr nxs 8(5)] .
      then show ?thesis using a RTrue Inr by simp
    qed
  next
    case (RPaths ps)
    then show ?thesis by simp
  qed
qed simp_all

lemma first_leaf_frames_nav:
  "first_leaf xs p d fs \<Longrightarrow> \<forall>x \<in> set xs. nav_node x \<Longrightarrow>
   \<forall>(post, d') \<in> set fs. \<forall>z \<in> set post. nav_node z"
proof (induction rule: first_leaf.induct)
  case (hit n post d)
  then show ?case by simp
next
  case (enter kvs k ys q d fs post)
  have "(k, JArr ys) \<in> set kvs" using enter.hyps(1) by (rule map_of_SomeD)
  with enter.prems have "\<forall>x \<in> set ys. nav_node x" by auto
  then show ?case using enter by auto
next
  case (skip x p xs d fs)
  then show ?case by simp
qed

section \<open>The element after the current leaf\<close>

text \<open>
  Claim C1, as amended. Let \<open>T\<close> be a navigation tree and \<open>p\<close> a plain path whose last
  component is not the empty string. If the first leaf in document order that \<open>p\<close>
  identifies lies in a sequence with breadcrumb \<open>d\<close> and is followed there by elements
  \<open>mid\<close> that are all dead ends and then by an element \<open>y\<close> that is not, the resolver
  returns exactly the first descendants of \<open>y\<close> under \<open>d\<close>, which are the first
  descendants of \<open>y\<close> on its own, each prefixed with \<open>d\<close>; and \<open>d\<close> is the path without its
  last component. With \<open>mid\<close> empty, \<open>y\<close> is the element immediately after the leaf.
\<close>

theorem next_sibling:
  assumes "nav_tree (JArr T)" and "plain p" and "last p \<noteq> []"
    and "first_leaf T p [] ((mid @ y # post, d) # st)"
    and "\<forall>m \<in> set mid. descendants m d = []"
    and "descendants y d \<noteq> []"
  shows "d = butlast p \<and> findNexts (JArr T) p = Inr (descendants y d) \<and>
         descendants y d = map ((@) d) (descendants y [])"
proof -
  have "d = butlast p" using first_leaf_breadcrumb[OF assms(4)] by simp
  moreover have "backtrack ((mid @ y # post, d) # st) = descendants y d"
    using firstLive_skip[OF assms(5,6)] assms(6) by simp
  moreover have "nav_node y"
    using first_leaf_frames_nav[OF assms(4)] assms(1) by auto
  then have "descendants y d = map ((@) d) (descendants y [])"
    using descendants_breadcrumb[of y d "[]"] by simp
  ultimately show ?thesis using findNexts_first_leaf[OF assms(1-4)] by simp
qed

text \<open>
  The theorem at a tree in which the leaf \<^verbatim>\<open>main/first.js\<close> is followed by a GroupSet with
  an empty track and then by one with a page.
\<close>

theorem next_sibling_witness:
  "nav_tree (JArr [JObj [(''main'', JArr [JStr ''first.js'', JObj [(''e'', JArr [])],
                            JObj [(''sub'', JArr [JStr ''nested.js''])], JStr ''last.js''])],
                   JStr ''post.js'']) \<and>
   descendants (JObj [(''e'', JArr [])]) [''main''] = [] \<and>
   descendants (JObj [(''sub'', JArr [JStr ''nested.js''])]) [''main'']
     = [[''main'', ''sub'', ''nested.js'']] \<and>
   findNexts (JArr [JObj [(''main'', JArr [JStr ''first.js'', JObj [(''e'', JArr [])],
                            JObj [(''sub'', JArr [JStr ''nested.js''])], JStr ''last.js''])],
                   JStr ''post.js'']) [''main'', ''first.js'']
     = Inr [[''main'', ''sub'', ''nested.js'']]"
proof -
  let ?e = "JObj [(''e'', JArr [])]"
  let ?sub = "JObj [(''sub'', JArr [JStr ''nested.js''])]"
  let ?ys = "[JStr ''first.js'', ?e, ?sub, JStr ''last.js'']"
  let ?T = "[JObj [(''main'', JArr ?ys)], JStr ''post.js'']"
  have nav: "nav_tree (JArr ?T)" by simp
  have pl: "plain [''main'', ''first.js'']" by (simp add: eval_simps)
  have f2: "first_leaf ?T [''main'', ''first.js''] []
              (([?e] @ ?sub # [JStr ''last.js''], [''main'']) # [([JStr ''post.js''], [])])"
    by code_simp
  have dead: "\<forall>m \<in> set [?e]. descendants m [''main''] = []" by (simp add: eval_simps)
  have live: "descendants ?sub [''main''] = [[''main'', ''sub'', ''nested.js'']]"
    by (simp add: eval_simps)
  have "findNexts (JArr ?T) [''main'', ''first.js''] = Inr (descendants ?sub [''main''])"
    using next_sibling[OF nav pl _ f2 dead] live by simp
  then show ?thesis using nav dead live by simp
qed

text \<open>
  The claim as first stated fails twice. In the unit tests' tree
  \<^verbatim>\<open>["file1.js", {"empty": []}, "file2.js"]\<close> the element right after \<^verbatim>\<open>file1.js\<close> has no
  first descendant, and the resolver answers with \<^verbatim>\<open>file2.js\<close>, not with the empty set. In
  \<^verbatim>\<open>["a", "b", "a", "c"]\<close> the path \<^verbatim>\<open>["a"]\<close> also identifies the third element, which is
  followed by \<^verbatim>\<open>c\<close>, and the resolver answers with \<^verbatim>\<open>b\<close>.
\<close>

theorem next_sibling_counterexample:
  "findNexts emptyDirs [''file1.js''] = Inr [[''file2.js'']] \<and>
   descendants (JObj [(''empty'', JArr [])]) [] = [] \<and>
   findNexts (JArr [JStr ''a'', JStr ''b'', JStr ''a'', JStr ''c'']) [''a''] = Inr [[''b'']] \<and>
   descendants (JStr ''c'') [] = [[''c'']]"
  by (simp add: emptyDirs_def eval_simps)

section \<open>Backtracking\<close>

text \<open>
  Claim C2, as amended. Let \<open>T\<close> be a navigation tree and \<open>p\<close> a plain path whose last
  component is not the empty string. If the first leaf in document order that \<open>p\<close>
  identifies is the last element of its sequence, or is followed there by dead ends
  only, the resolver returns what \<open>backtrack\<close> finds in the frames of the enclosing
  levels, innermost first: the first descendants, under that level's breadcrumb, of the
  first element that is not a dead end among the elements after the position at the
  nearest level that has such an element, and the empty list when no level has one.
\<close>

theorem backtrack_from_last:
  assumes "nav_tree (JArr T)" and "plain p" and "last p \<noteq> []"
    and "first_leaf T p [] ((post, d) # st)"
    and "\<forall>m \<in> set post. descendants m d = []"
  shows "findNexts (JArr T) p = Inr (backtrack st)"
  using findNexts_first_leaf[OF assms(1-4)] firstLive_dead[OF assms(5)] by simp

text \<open>
  The theorem at the unit tests' tree \<open>complex\<close>: after \<^verbatim>\<open>lib/utils/math.js\<close>, the last page
  of its track, comes \<^verbatim>\<open>lib/index.js\<close> one level up.
\<close>

theorem backtrack_from_last_witness:
  "findNexts complex [''lib'', ''utils'', ''math.js''] = Inr [[''lib'', ''index.js'']]"
proof -
  let ?us = "[JStr ''helper.js'', JStr ''math.js'']"
  let ?ls = "[JObj [(''utils'', JArr ?us)], JStr ''index.js'']"
  let ?test = "JObj [(''test'', JArr [JStr ''spec.js''])]"
  let ?T = "[JStr ''start.js'', JObj [(''lib'', JArr ?ls)], ?test, JStr ''end.js'']"
  have nav: "nav_tree (JArr ?T)" by simp
  have pl: "plain [''lib'', ''utils'', ''math.js'']" by (simp add: eval_simps)
  have f3: "first_leaf ?T [''lib'', ''utils'', ''math.js''] []
              (([], [''lib'', ''utils'']) #
               [([JStr ''index.js''], [''lib'']), ([?test, JStr ''end.js''], [])])"
    by code_simp
  have "backtrack [([JStr ''index.js''], [''lib'']), ([?test, JStr ''end.js''], [])]
          = [[''lib'', ''index.js'']]"
    by (simp add: eval_simps)
  then show ?thesis
    using backtrack_from_last[OF nav pl _ f3] by (simp add: complex_def)
qed

text \<open>
  The claim as first stated fails where the next element of the nearest enclosing level
  is a dead end: after \<^verbatim>\<open>a/x\<close> in \<^verbatim>\<open>[{"a": ["x"]}, {"e": []}, "b"]\<close> that element is
  \<^verbatim>\<open>{"e": []}\<close>, which has no first descendant, and the resolver answers with \<^verbatim>\<open>b\<close>. It
  also fails for a leaf that is not the first one its path identifies: in
  \<^verbatim>\<open>[{"a": ["x"]}, "m", {"a": ["x"]}]\<close> the second leaf \<^verbatim>\<open>a/x\<close> has no element after it at
  any level, and the resolver answers with \<^verbatim>\<open>m\<close>, which follows the first.
\<close>

theorem backtrack_from_last_counterexample:
  "findNexts (JArr [JObj [(''a'', JArr [JStr ''x''])], JObj [(''e'', JArr [])], JStr ''b''])
      [''a'', ''x''] = Inr [[''b'']] \<and>
   descendants (JObj [(''e'', JArr [])]) [] = [] \<and>
   findNexts (JArr [JObj [(''a'', JArr [JStr ''x''])], JStr ''m'', JObj [(''a'', JArr [JStr ''x''])]])
      [''a'', ''x''] = Inr [[''m'']]"
  by (simp add: eval_simps)

section \<open>The empty path\<close>

text \<open>
  Claim C3, as amended. For every navigation tree \<open>T\<close>, the resolver applied to \<open>T\<close> and the
  empty path returns the empty list when \<open>T\<close> is empty; the single path of the first
  element when that is a Leaf; and, when the first element is a GroupSet of which some
  track has a first descendant, the first descendants of its tracks, track after track,
  each path prefixed with its track's name: nothing for a track that is a dead end, and
  as many paths as that track's own first element fans out to otherwise. It returns the
  empty list when \<open>T\<close> has no leaves, and what it returns are leaves of \<open>T\<close> in document
  order.
\<close>

theorem empty_path:
  assumes "nav_tree (JArr T)"
  shows "(T = [] \<longrightarrow> findNexts (JArr T) [] = Inr []) \<and>
         (\<forall>s rest. T = JStr s # rest \<longrightarrow> findNexts (JArr T) [] = Inr [[s]]) \<and>
         (\<forall>kvs rest. T = JObj kvs # rest \<and> (\<exists>(k, v) \<in> set kvs. descendants v [] \<noteq> []) \<longrightarrow>
            findNexts (JArr T) []
              = Inr (concat (map (\<lambda>(k, v). map ((#) k) (descendants v [])) kvs))) \<and>
         (leaves (JArr T) [] = [] \<longrightarrow> findNexts (JArr T) [] = Inr []) \<and>
         (\<exists>ps. findNexts (JArr T) [] = Inr ps \<and> subseq ps (leaves (JArr T) []))"
proof -
  have res: "findNexts (JArr T) [] = Inr (descendants (JArr T) [])"
    using assms by (simp add: findNexts_empty_path)
  have sub: "subseq (descendants (JArr T) []) (leaves (JArr T) [])"
    using assms by (intro descendants_leaves) simp
  have c1: "T = [] \<longrightarrow> findNexts (JArr T) [] = Inr []"
    using res by (auto simp: descendants_JArr)
  have c2: "\<forall>s rest. T = JStr s # rest \<longrightarrow> findNexts (JArr T) [] = Inr [[s]]"
    using res by (auto simp: descendants_JArr descendants_JStr)
  have c3: "\<forall>kvs rest. T = JObj kvs # rest \<and> (\<exists>(k, v) \<in> set kvs. descendants v [] \<noteq> []) \<longrightarrow>
            findNexts (JArr T) []
              = Inr (concat (map (\<lambda>(k, v). map ((#) k) (descendants v [])) kvs))"
  proof (intro allI impI)
    fix kvs rest
    assume h: "T = JObj kvs # rest \<and> (\<exists>(k, v) \<in> set kvs. descendants v [] \<noteq> [])"
    then have "nav_node (JObj kvs)" using assms by auto
    then show "findNexts (JArr T) []
              = Inr (concat (map (\<lambda>(k, v). map ((#) k) (descendants v [])) kvs))"
      using res h descendants_tracks[of kvs "[]"] by (auto simp: descendants_JArr)
  qed
  have c4: "leaves (JArr T) [] = [] \<longrightarrow> findNexts (JArr T) [] = Inr []"
  proof
    assume "leaves (JArr T) [] = []"
    with sub have "descendants (JArr T) [] = []" by (simp del: leaves.simps)
    with res show "findNexts (JArr T) [] = Inr []" by simp
  qed
  show ?thesis using c1 c2 c3 c4 res sub by blast
qed

text \<open>
  The theorem at a tree whose first element has an empty track \<^verbatim>\<open>a\<close> and a track \<^verbatim>\<open>b\<close> that
  begins with a GroupSet of two tracks.
\<close>

theorem empty_path_witness:
  "nav_tree (JArr [JObj [(''a'', JArr []),
                         (''b'', JArr [JObj [(''c'', JArr [JStr ''x'']), (''d'', JArr [JStr ''y''])]])],
                   JStr ''z'']) \<and>
   findNexts (JArr [JObj [(''a'', JArr []),
                          (''b'', JArr [JObj [(''c'', JArr [JStr ''x'']), (''d'', JArr [JStr ''y''])]])],
                    JStr ''z'']) []
     = Inr [[''b'', ''c'', ''x''], [''b'', ''d'', ''y'']]"
proof -
  let ?kvs = "[(''a'', JArr []),
               (''b'', JArr [JObj [(''c'', JArr [JStr ''x'']), (''d'', JArr [JStr ''y''])]])]"
  let ?T = "[JObj ?kvs, JStr ''z'']"
  have nav: "nav_tree (JArr ?T)" by simp
  have live: "\<exists>(k, v) \<in> set ?kvs. descendants v [] \<noteq> []" by (simp add: eval_simps)
  from empty_path[OF nav] have
    "\<forall>kvs rest. ?T = JObj kvs # rest \<and> (\<exists>(k, v) \<in> set kvs. descendants v [] \<noteq> []) \<longrightarrow>
       findNexts (JArr ?T) [] = Inr (concat (map (\<lambda>(k, v). map ((#) k) (descendants v [])) kvs))"
    by blast
  then have "findNexts (JArr ?T) []
       = Inr (concat (map (\<lambda>(k, v). map ((#) k) (descendants v [])) ?kvs))"
    using live by blast
  then show ?thesis using nav by (simp add: descendants_def filterIsArray_def)
qed

text \<open>
  The claim as first stated says one path per track of the first element. A GroupSet
  with the tracks \<^verbatim>\<open>a\<close> (empty) and \<^verbatim>\<open>b\<close> gives one path for two tracks, and a GroupSet
  whose only track \<^verbatim>\<open>a\<close> begins with a GroupSet of two tracks gives two paths for one
  track.
\<close>

theorem empty_path_counterexample:
  "findNexts (JArr [JObj [(''a'', JArr []), (''b'', JArr [JStr ''x''])]]) [] = Inr [[''b'', ''x'']] \<and>
   tracks (JObj [(''a'', JArr []), (''b'', JArr [JStr ''x''])]) = [''a'', ''b''] \<and>
   findNexts (JArr [JObj [(''a'', JArr [JObj [(''b'', JArr [JStr ''x'']),
                                               (''c'', JArr [JStr ''y''])]])]]) []
     = Inr [[''a'', ''b'', ''x''], [''a'', ''c'', ''y'']] \<and>
   tracks (JObj [(''a'', JArr [JObj [(''b'', JArr [JStr ''x'']), (''c'', JArr [JStr ''y''])]])])
     = [''a'']"
  by (simp add: eval_simps)

section \<open>Empty tracks\<close>

text \<open>
  Claim C4 says that a track with no elements is skipped as if it were absent, in the
  computation of first descendants as well as in backtracking. The loop of
  \<^verbatim>\<open>findNextsHelper\<close> does skip a dead end and goes on to the next sibling (third line
  below, a unit test of the source), but \<^verbatim>\<open>getNexts\<close> looks at the first element of an
  array only: when that element is a GroupSet whose tracks are all empty, the array has
  no first descendant, whatever follows. So the tree \<^verbatim>\<open>[{"empty": []}, "file2.js"]\<close> has no
  first page although \<^verbatim>\<open>["file2.js"]\<close> has one, and the page \<^verbatim>\<open>t/b\<close> of
  \<^verbatim>\<open>["a", {"t": [{"e": []}, "b"]}, "c"]\<close> is passed over after \<^verbatim>\<open>a\<close>, which is followed by
  \<^verbatim>\<open>t/b\<close> once the element with the empty track is taken away. Taking only the empty
  track away and leaving its GroupSet in place changes nothing for a plain path, as the
  last section shows, but it turns the empty answer for the path
  \<^verbatim>\<open>["constructor", "x"]\<close> in \<^verbatim>\<open>[{"constructor": []}]\<close> into an exception.
\<close>

theorem empty_track_blocks:
  "findNexts (JArr [JObj [(''empty'', JArr [])], JStr ''file2.js'']) [] = Inr [] \<and>
   findNexts (JArr [JStr ''file2.js'']) [] = Inr [[''file2.js'']] \<and>
   findNexts emptyDirs [''file1.js''] = Inr [[''file2.js'']] \<and>
   findNexts (JArr [JStr ''a'', JObj [(''t'', JArr [JObj [(''e'', JArr [])], JStr ''b''])], JStr ''c''])
     [''a''] = Inr [[''c'']] \<and>
   findNexts (JArr [JStr ''a'', JObj [(''t'', JArr [JStr ''b''])], JStr ''c'']) [''a'']
     = Inr [[''t'', ''b'']] \<and>
   findNexts (JArr [JObj [(''constructor'', JArr [])]]) [''constructor'', ''x''] = Inr [] \<and>
   findNexts (drop_empty (JArr [JObj [(''constructor'', JArr [])]])) [''constructor'', ''x'']
     = Inl FindNextsUnhandled"
  by (simp add: emptyDirs_def eval_simps)

section \<open>Fan-out over the tracks of a GroupSet\<close>




section \<open>Concrete scenarios\<close>

text \<open>
  Claim C6. On the tree \<^verbatim>\<open>["config.js", {"src": ["index.js","utils.js"]}, "readme.md"]\<close>
  the resolver answers \<^verbatim>\<open>[["src","index.js"]]\<close> for the path \<^verbatim>\<open>["config.js"]\<close>,
  \<^verbatim>\<open>[["src","utils.js"]]\<close> for \<^verbatim>\<open>["src","index.js"]\<close>, \<^verbatim>\<open>[["readme.md"]]\<close> for
  \<^verbatim>\<open>["src","utils.js"]\<close>, the empty list for \<^verbatim>\<open>["readme.md"]\<close> and \<^verbatim>\<open>[["config.js"]]\<close> for
  the empty path.
\<close>

theorem basic_scenarios:
  "findNexts basic [''config.js''] = Inr [[''src'', ''index.js'']] \<and>
   findNexts basic [''src'', ''index.js''] = Inr [[''src'', ''utils.js'']] \<and>
   findNexts basic [''src'', ''utils.js''] = Inr [[''readme.md'']] \<and>
   findNexts basic [''readme.md''] = Inr [] \<and>
   findNexts basic [] = Inr [[''config.js'']]"
  by (simp add: basic_def findNexts_def filterIsArray_def List.map_filter_simps)

section \<open>Paths that match no leaf\<close>

text \<open>
  Claim C7 says that a path that identifies no leaf gives the empty list and never an
  exception. A track name that no GroupSet has as its own property is read from the
  prototype chain; for \<^verbatim>\<open>constructor\<close> that is a function, neither a string nor an object,
  and \<^verbatim>\<open>findNextsHelper\<close> throws its "unhandled state" error. The unit tests' tree
  \<open>basic\<close> with the path \<^verbatim>\<open>["constructor", "x"]\<close> shows it; the path
  \<^verbatim>\<open>["missing", "deep", "file.js"]\<close> of the unit tests gives the empty list.
\<close>

theorem inherited_name_throws:
  "nav_tree basic \<and>
   has_leaf basic [''constructor'', ''x''] = False \<and>
   findNexts basic [''constructor'', ''x''] = Inl FindNextsUnhandled \<and>
   findNexts basic [''missing'', ''deep'', ''file.js''] = Inr []"
  by (simp add: basic_def eval_simps)

section \<open>Identifiers at the output boundary\<close>

text \<open>
  Claim C8, as amended. For a non-empty list of resolved paths the output boundary
  builds one entry per path. The breadcrumb of a path is the path without its last
  component, replaced by the configured default track name when it is empty. When
  exactly one path was returned the identifier is the bare prefix; otherwise it is the
  prefix, a hyphen, and the components of the breadcrumb joined by underscores.
\<close>

theorem output_identifiers:
  assumes "nexts \<noteq> []"
  shows "\<exists>out. formatNexts idPrefix shared urlPrefix pathJoin nexts = Inr out \<and>
           map fst out =
             (if length nexts = 1 then [idPrefix]
              else map (\<lambda>r. idPrefix @ ''-'' @
                          joinJS ''_'' (if butlast r = [] then [shared] else butlast r)) nexts)"
  using assms
  by (cases nexts) (auto simp: formatNexts_def formatEntry_def Let_def)

text \<open>
  The theorem at two resolved paths, the second at the root of the tree, and at a single
  resolved path.
\<close>

theorem output_identifiers_witness:
  "formatNexts ''next_page'' ''shared'' '''' id [[''lib'', ''utils'', ''a.js''], [''b.js'']]
     = Inr [(''next_page-lib_utils'', [Some '''', Some ''lib'', Some ''utils'', Some ''a.js'']),
            (''next_page-shared'', [Some '''', Some ''shared'', Some ''b.js''])] \<and>
   formatNexts ''next_page'' ''shared'' '''' id [[''lib'', ''a.js'']]
     = Inr [(''next_page'', [Some '''', Some ''lib'', Some ''a.js''])]"
proof -
  have a: "[[''lib'', ''utils'', ''a.js''], [''b.js'']] \<noteq> []" by simp
  have b: "[[''lib'', ''a.js'']] \<noteq> []" by simp
  from output_identifiers[OF a, of "''next_page''" "''shared''" "''''" id]
       output_identifiers[OF b, of "''next_page''" "''shared''" "''''" id]
  show ?thesis by (simp add: formatNexts_def formatEntry_def Let_def)
qed

text \<open>
  The claim as first stated joins the prefix and the breadcrumb with an underscore; the
  code puts a hyphen between them.
\<close>

theorem output_identifiers_counterexample:
  "formatNexts ''next_page'' ''shared'' '''' id [[''a'', ''x''], [''b'', ''y'']]
     = Inr [(''next_page-a'', [Some '''', Some ''a'', Some ''x'']),
            (''next_page-b'', [Some '''', Some ''b'', Some ''y''])] \<and>
   joinJS ''_'' [''next_page'', ''a''] = ''next_page_a'' \<and>
   ''next_page-a'' \<noteq> ''next_page_a''"
  by (simp add: formatNexts_def formatEntry_def Let_def)

section \<open>Termination and call depth\<close>

text \<open>
  Claim C9. \<open>getNexts\<close>, \<open>findNextsHelper\<close> and its loop are defined above by well-founded
  recursion: every recursive call of \<open>getNexts\<close> is on a part of its argument, and every
  recursive call of \<open>findNextsHelper\<close> is on a shorter path or, with the same path, on an
  element of the array. The resolver therefore returns on every value and every path,
  and the nesting of its calls is bounded by the nesting depth of the tree: a budget of
  three nested calls more than the depth of the value is enough, and any larger budget
  gives the same result.
\<close>

theorem bounded_call_depth:
  "findNextsD (depth xs + 3 + m) xs path = Some (findNexts xs path)"
proof -
  have eq: "depth xs + 3 + m = Suc (depth xs + 2 + m)" by simp
  have g: "getNextsD (depth xs + 2 + m) xs [] = Some (getNexts xs [])"
    by (intro getNextsD_enough(1)) simp
  have h: "findNextsHelperD (depth xs + 2 + m) xs path [] = Some (findNextsHelper xs path [])"
    by (intro findNextsHelperD_enough(1)) simp
  show ?thesis
    unfolding eq findNextsD.simps findNexts_def g h
    by (simp split: sum.splits found.splits)
qed

section \<open>Several leaves with the same path\<close>

text \<open>
  Claim C10 says that the resolver answers for the first leaf in document order that the
  path identifies. It does so in \<^verbatim>\<open>["p", "b", "p"]\<close>. A leaf whose name is the empty string
  is never found, because \<^verbatim>\<open>findNextsHelper\<close> returns \<^verbatim>\<open>false\<close> for every falsy value
  before it compares names: in \<^verbatim>\<open>["", "b", ""]\<close> the path \<^verbatim>\<open>[""]\<close> identifies two leaves and
  the answer is empty, not \<^verbatim>\<open>b\<close>; yet \<^verbatim>\<open>getNexts\<close> gives such a leaf as the next page
  after \<^verbatim>\<open>a\<close> in \<^verbatim>\<open>["a", ""]\<close>. A track name that plain objects inherit as a function
  makes the search throw at the first GroupSet without a track of that name, before the
  leaves in a later GroupSet are reached.
\<close>

theorem first_match_missed:
  "nav_tree (JArr [JStr '''', JStr ''b'', JStr '''']) \<and>
   has_leaf (JArr [JStr '''', JStr ''b'', JStr '''']) [''''] \<and>
   findNexts (JArr [JStr '''', JStr ''b'', JStr '''']) [''''] = Inr [] \<and>
   findNexts (JArr [JStr ''p'', JStr ''b'', JStr ''p'']) [''p''] = Inr [[''b'']] \<and>
   findNexts (JArr [JStr ''a'', JStr '''']) [''a''] = Inr [['''']] \<and>
   findNexts (JArr [JObj [(''a'', JArr [JStr ''x''])],
                    JObj [(''toString'', JArr [JStr ''y'', JStr ''z'', JStr ''y''])]])
     [''toString'', ''y''] = Inl FindNextsUnhandled"
  by (simp add: eval_simps)

section \<open>Further properties\<close>

text \<open>
  Whenever a plain path with a non-empty leaf name identifies a leaf of a navigation
  tree at all, there is a first such leaf, and the resolver answers with what
  \<open>backtrack\<close> finds in its frames.
\<close>

theorem first_match_resolution:
  assumes "nav_tree (JArr T)" and "plain p" and "last p \<noteq> []" and "has_leaf (JArr T) p"
  shows "\<exists>fs. first_leaf T p [] fs \<and> findNexts (JArr T) p = Inr (backtrack fs)"
proof -
  obtain fs where "first_leaf T p [] fs"
    using first_leaf_exists[of T p "[]"] assms(1,4) by auto
  then show ?thesis using findNexts_first_leaf[OF assms(1-3)] by blast
qed

theorem first_match_resolution_witness:
  "\<exists>fs. first_leaf [JStr ''a.js'', JObj [(''shared'', JArr [JStr ''x.js''])], JStr ''b.js'',
                      JObj [(''shared'', JArr [JStr ''y.js'', JStr ''z.js''])], JStr ''c.js'']
            [''shared'', ''y.js''] [] fs \<and>
         findNexts multiDir [''shared'', ''y.js''] = Inr (backtrack fs)"
proof -
  have "nav_tree multiDir" by (simp add: multiDir_def)
  moreover have "plain [''shared'', ''y.js'']" by (simp add: eval_simps)
  moreover have "has_leaf multiDir [''shared'', ''y.js'']" by (simp add: multiDir_def)
  ultimately show ?thesis
    using first_match_resolution[of _ "[''shared'', ''y.js'']"] by (simp add: multiDir_def)
qed

text \<open>
  A plain, non-empty path that identifies no leaf of a navigation tree gives the empty
  list.
\<close>

theorem no_match_empty:
  assumes "nav_tree T" and "plain p" and "p \<noteq> []" and "\<not> has_leaf T p"
  shows "findNexts T p = Inr []"
  using assms not_found(1)[of T p "[]"] by (simp add: findNexts_def)

theorem no_match_empty_witness:
  "nav_tree basic \<and> plain [''src'', ''missing.js''] \<and>
   findNexts basic [''src'', ''missing.js''] = Inr []"
proof -
  have nav: "nav_tree basic" by (simp add: basic_def)
  have pl: "plain [''src'', ''missing.js'']" by (simp add: eval_simps)
  have "\<not> has_leaf basic [''src'', ''missing.js'']" by (simp add: basic_def)
  then show ?thesis using no_match_empty[OF nav pl] nav pl by simp
qed

text \<open>
  For a plain path, the resolver's answer on a navigation tree is its answer on the tree
  without its empty tracks.
\<close>

theorem empty_tracks_absent:
  assumes "nav_tree T" and "plain p"
  shows "findNexts (drop_empty T) p = findNexts T p"
  using assms find_drop_empty(1)[of T p "[]"] getNexts_drop_empty[of T "[]"]
  by (simp add: findNexts_def)

theorem empty_tracks_absent_witness:
  "drop_empty emptyDirs = JArr [JStr ''file1.js'', JObj [], JStr ''file2.js''] \<and>
   findNexts (JArr [JStr ''file1.js'', JObj [], JStr ''file2.js'']) [''file1.js'']
     = Inr [[''file2.js'']]"
proof -
  have nav: "nav_tree emptyDirs" by (simp add: emptyDirs_def)
  have pl: "plain [''file1.js'']" by (simp add: eval_simps)
  have d: "drop_empty emptyDirs = JArr [JStr ''file1.js'', JObj [], JStr ''file2.js'']"
    by (simp add: emptyDirs_def)
  have "findNexts emptyDirs [''file1.js''] = Inr [[''file2.js'']]"
    by (simp add: emptyDirs_def eval_simps)
  then show ?thesis using empty_tracks_absent[OF nav pl] d by simp
qed

text \<open>
  The order of the tracks is that of \<^verbatim>\<open>Object.entries\<close>, not always that of the
  declaration: of the tracks \<^verbatim>\<open>10\<close> and \<^verbatim>\<open>9\<close>, declared in this order, \<^verbatim>\<open>9\<close> comes first,
  while the tracks \<^verbatim>\<open>b\<close> and \<^verbatim>\<open>a\<close> keep their order.
\<close>

theorem entries_order:
  "own_entries [(''10'', JArr [JStr ''a'']), (''9'', JArr [JStr ''b''])]
     = [(''9'', JArr [JStr ''b'']), (''10'', JArr [JStr ''a''])] \<and>
   getNexts (JObj (own_entries [(''10'', JArr [JStr ''a'']), (''9'', JArr [JStr ''b''])])) []
     = Inr (RPaths [[''9'', ''b''], [''10'', ''a'']]) \<and>
   own_entries [(''b'', JArr [JStr ''x'']), (''a'', JArr [JStr ''y''])]
     = [(''b'', JArr [JStr ''x'']), (''a'', JArr [JStr ''y''])] \<and>
   getNexts (JObj (own_entries [(''b'', JArr [JStr ''x'']), (''a'', JArr [JStr ''y''])])) []
     = Inr (RPaths [[''b'', ''x''], [''a'', ''y'']])"
  by (simp add: own_entries_def array_index_def index_value_def filterIsArray_def)

text \<open>The unit tests of \<^verbatim>\<open>next_page_resolver.js\<close>, on the embedding.\<close>

theorem unit_tests:
  "findNexts basic [''config.js''] = Inr [[''src'', ''index.js'']] \<and>
   findNexts basic [''src'', ''index.js''] = Inr [[''src'', ''utils.js'']] \<and>
   findNexts basic [''src'', ''utils.js''] = Inr [[''readme.md'']] \<and>
   findNexts basic [''readme.md''] = Inr [] \<and>
   findNexts multiDir [''shared'', ''x.js''] = Inr [[''b.js'']] \<and>
   findNexts multiDir [''shared'', ''y.js''] = Inr [[''shared'', ''z.js'']] \<and>
   findNexts multiDir [''shared'', ''z.js''] = Inr [[''c.js'']] \<and>
   findNexts multiDir [''b.js''] = Inr [[''shared'', ''y.js'']] \<and>
   findNexts complex [''start.js''] = Inr [[''lib'', ''utils'', ''helper.js'']] \<and>
   findNexts complex [''lib'', ''utils'', ''helper.js''] = Inr [[''lib'', ''utils'', ''math.js'']] \<and>
   findNexts complex [''lib'', ''utils'', ''math.js''] = Inr [[''lib'', ''index.js'']] \<and>
   findNexts complex [''lib'', ''index.js''] = Inr [[''test'', ''spec.js'']] \<and>
   findNexts complex [''end.js''] = Inr [] \<and>
   findNexts nested [''deep'', ''nested'', ''very'', ''deep.js''] = Inr [[''surface.js'']] \<and>
   findNexts emptyDirs [''file1.js''] = Inr [[''file2.js'']] \<and>
   findNexts basic [] = Inr [[''config.js'']] \<and>
   findNexts basic [''missing.js''] = Inr [] \<and>
   findNexts basic [''src'', ''missing.js''] = Inr [] \<and>
   findNexts basic [''missing'', ''deep'', ''file.js''] = Inr [] \<and>
   findNexts (JArr []) [] = Inr [] \<and>
   findNexts (JArr [JStr ''only.js'']) [''only.js''] = Inr [] \<and>
   findNexts (JArr [JStr ''only.js'']) [''other.js''] = Inr [] \<and>
   findNexts dirOnly [''dir1'', ''subdir'', ''file.js''] = Inr [[''dir2'', ''other.js'']] \<and>
   findNexts mixedComplex [''main'', ''sub'', ''nested.js''] = Inr [[''main'', ''last.js'']] \<and>
   findNexts mixedComplex [''main'', ''last.js''] = Inr [[''main'', ''duplicate.js'']] \<and>
   findNexts mixedComplex [''main'', ''duplicate.js''] = Inr [[''post.js'']] \<and>
   findNexts tripleDir [''same'', ''a.js''] = Inr [[''middle.js'']] \<and>
   findNexts tripleDir [''same'', ''b.js''] = Inr [[''same'', ''c.js'']] \<and>
   findNexts tripleDir [''same'', ''c.js''] = Inr [[''end.js'']] \<and>
   findNexts tripleDir [''same'', ''d.js''] = Inr [] \<and>
   findNexts deepNest [''a'', ''b'', ''c'', ''d'', ''deep.js''] = Inr [[''a'', ''b'', ''c'', ''mid.js'']] \<and>
   findNexts deepNest [''a'', ''b'', ''c'', ''mid.js''] = Inr [[''a'', ''b'', ''shallow.js'']] \<and>
   findNexts deepNest [''a'', ''b'', ''shallow.js''] = Inr [[''root.js'']]"
  by (simp add: basic_def multiDir_def complex_def nested_def emptyDirs_def dirOnly_def
        mixedComplex_def tripleDir_def deepNest_def findNexts_def filterIsArray_def
        object_prototype_functions_def)

end
